theory Spec2Isabelle
  imports Main "HOL-Library.Multiset"
begin

section \<open>The d-ary heap priority queue, as the Python source has it\<close>

text \<open>
  The source is one Python module with a dataclass \<open>Item\<close> and a class \<open>DHeap\<close>.
  An \<open>Item\<close> has the two integer fields \<open>number\<close> (the identity) and \<open>cost\<close>; Python
  integers are unbounded, so both are \<open>int\<close>.

  A \<open>DHeap\<close> object has the fields \<open>d\<close>, \<open>heap\<close> (a Python list of items) and
  \<open>position_map\<close> (a dict from identity to list index). Methods mutate the object; here
  every method takes the object's state and returns the state it leaves behind together
  with what it returns or raises. List indices are \<open>nat\<close>: the source only computes
  indices from \<open>len(self.heap)\<close>, from \<open>(index - 1) // d\<close> under \<open>index > 0\<close> and from
  \<open>d * index + 1\<close>, none of which is negative. The arity is stored as a \<open>nat\<close> as well:
  the constructor takes an \<open>int\<close> and refuses every value below 2.

  Items are modelled as values. The Python list holds references to the caller's
  objects; the methods themselves never use that sharing (a priority change copies the
  integer \<open>item.cost\<close> into the stored object), so the model covers every effect of the
  methods, and does not cover a caller that writes to an item's fields behind the heap's
  back.
\<close>

record item =
  number :: int
  cost :: int

record dheap =
  d :: nat
  heap :: "item list"
  position_map :: "int \<rightharpoonup> nat"

text \<open>
  Every \<open>raise\<close> of the source is a \<open>ValueError\<close>, told apart by its message. Each
  raise site is a constructor here:
  \<^item> \<open>InvalidArity\<close>: "Heap arity must be at least 2" (in \<open>__init__\<close>);
  \<^item> \<open>DuplicateIdentity\<close>: "Item with identity ... already exists" (in \<open>insert\<close>);
  \<^item> \<open>NotFound\<close>: "Item with identity ... not found" (in both priority changes);
  \<^item> \<open>InvalidTransition\<close>: "New cost must be lower than current cost" and
    "New cost must be higher than current cost".

  \<open>KeyError\<close> and \<open>IndexError\<close> are what Python itself raises at
  \<open>del self.position_map[...]\<close> for a missing key and at \<open>self.heap[index]\<close> for an index
  beyond the list.
\<close>

datatype error =
    InvalidArity
  | DuplicateIdentity
  | NotFound
  | InvalidTransition
  | KeyError
  | IndexError

subsection \<open>Construction\<close>

definition init :: "int \<Rightarrow> error + dheap" where
  "init a =
     (if a < 2 then Inl InvalidArity
      else Inr \<lparr>d = nat a, heap = [], position_map = Map.empty\<rparr>)"

subsection \<open>Index arithmetic and swapping\<close>

definition parent :: "dheap \<Rightarrow> nat \<Rightarrow> nat" where
  "parent h index = (index - 1) div d h"

definition children :: "dheap \<Rightarrow> nat \<Rightarrow> nat list" where
  "children h index =
     (let start = d h * index + 1;
          end = start + d h
      in [start ..< min end (length (heap h))])"

text \<open>
  The tuple assignment \<open>heap[i], heap[j] = heap[j], heap[i]\<close> reads both entries first
  and then writes position \<open>i\<close>, then position \<open>j\<close>. The two dict writes that follow read
  the list after the exchange.
\<close>

definition swap :: "dheap \<Rightarrow> nat \<Rightarrow> nat \<Rightarrow> dheap" where
  "swap h i j =
     (let hp = (heap h)[i := heap h ! j, j := heap h ! i];
          pm = (position_map h)(number (hp ! i) \<mapsto> i);
          pm' = pm(number (hp ! j) \<mapsto> j)
      in h\<lparr>heap := hp, position_map := pm'\<rparr>)"

subsection \<open>Restoring the heap order\<close>

text \<open>
  \<open>_bubble_up\<close> is a \<open>while index > 0\<close> loop that leaves with \<open>break\<close>; the loop is the
  recursion below, and it ends because the parent index is smaller than the index.
\<close>

function bubble_up :: "dheap \<Rightarrow> nat \<Rightarrow> dheap" where
  "bubble_up h index =
     (if index > 0 then
        (if cost (heap h ! index) < cost (heap h ! parent h index)
         then bubble_up (swap h index (parent h index)) (parent h index)
         else h)
      else h)"
  by pat_completeness auto
termination
  by (relation "measure (\<lambda>(h, index). index)") (auto simp: parent_def intro: le_less_trans [OF div_le_dividend])

declare bubble_up.simps [simp del]

text \<open>
  Python's \<open>min(xs, key=f)\<close> walks the list from the left and keeps the first element
  whose key is smallest: a later element replaces the current one only when its key is
  strictly smaller. On the empty list it raises; \<open>_bubble_down\<close> calls it only after
  \<open>if not children: break\<close>.
\<close>

fun min_key :: "('a \<Rightarrow> int) \<Rightarrow> 'a \<Rightarrow> 'a list \<Rightarrow> 'a" where
  "min_key f m [] = m"
| "min_key f m (x # xs) = min_key f (if f x < f m then x else m) xs"

definition py_min :: "('a \<Rightarrow> int) \<Rightarrow> 'a list \<Rightarrow> 'a" where
  "py_min f xs = min_key f (hd xs) (tl xs)"

lemma min_key_in: "min_key f m xs \<in> insert m (set xs)"
  by (induction xs arbitrary: m) auto

lemma py_min_in: "xs \<noteq> [] \<Longrightarrow> py_min f xs \<in> set xs"
  using min_key_in [of f "hd xs" "tl xs"] by (cases xs) (auto simp: py_min_def)

lemma length_heap_swap [simp]: "length (heap (swap h i j)) = length (heap h)"
  by (simp add: swap_def Let_def)

lemma d_swap [simp]: "d (swap h i j) = d h"
  by (simp add: swap_def Let_def)

lemma children_gt: "c \<in> set (children h index) \<Longrightarrow> index < c \<and> c < length (heap h)"
proof -
  assume c: "c \<in> set (children h index)"
  then have lo: "d h * index + 1 \<le> c" and hi: "c < d h * index + 1 + d h"
    and len: "c < length (heap h)"
    by (auto simp: children_def Let_def)
  have "d h \<noteq> 0"
    using lo hi by (cases "d h") auto
  then have "index \<le> d h * index"
    by simp
  with lo have "index < c"
    by linarith
  with len show ?thesis
    by simp
qed

text \<open>
  \<open>_bubble_down\<close> is a \<open>while True\<close> loop; every round either leaves or moves to a child,
  whose index is larger and still inside the list.
\<close>

function bubble_down :: "dheap \<Rightarrow> nat \<Rightarrow> dheap" where
  "bubble_down h index =
     (if children h index = [] then h
      else
        (if cost (heap h ! index) > cost (heap h ! py_min (\<lambda>i. cost (heap h ! i)) (children h index))
         then bubble_down (swap h index (py_min (\<lambda>i. cost (heap h ! i)) (children h index)))
                (py_min (\<lambda>i. cost (heap h ! i)) (children h index))
         else h))"
  by pat_completeness auto
termination
proof (relation "measure (\<lambda>(h, index). length (heap h) - index)")
  show "wf (measure (\<lambda>(h, index). length (heap h) - index))"
    by simp
next
  fix h :: dheap and index :: nat
  assume ne: "children h index \<noteq> []"
  let ?m = "py_min (\<lambda>i. cost (heap h ! i)) (children h index)"
  have "index < ?m \<and> ?m < length (heap h)"
    using py_min_in [OF ne] children_gt by blast
  then have "length (heap h) - ?m < length (heap h) - index"
    by linarith
  then show "((swap h index ?m, ?m), (h, index)) \<in> measure (\<lambda>(h, index). length (heap h) - index)"
    by simp
qed

declare bubble_down.simps [simp del]

subsection \<open>The public methods\<close>

text \<open>
  Each method returns the state at the moment it returns or raises, paired with its
  outcome: \<open>Inr\<close> of the returned value, or \<open>Inl\<close> of the exception.
\<close>

definition insert_item :: "dheap \<Rightarrow> item \<Rightarrow> dheap \<times> (error + unit)" where
  "insert_item h x =
     (if number x \<in> dom (position_map h) then (h, Inl DuplicateIdentity)
      else
        let h1 = h\<lparr>heap := heap h @ [x]\<rparr>;
            h2 = h1\<lparr>position_map := (position_map h1)(number x \<mapsto> length (heap h1) - 1)\<rparr>
        in (bubble_up h2 (length (heap h2) - 1), Inr ()))"

definition pop :: "dheap \<Rightarrow> dheap \<times> (error + item option)" where
  "pop h =
     (if heap h = [] then (h, Inr None)
      else
        let min_item = heap h ! 0;
            last_item = last (heap h);
            h1 = h\<lparr>heap := butlast (heap h)\<rparr>
        in if number min_item \<notin> dom (position_map h1) then (h1, Inl KeyError)
           else
             let h2 = h1\<lparr>position_map := (position_map h1)(number min_item := None)\<rparr>
             in if heap h2 \<noteq> [] then
                  let h3 = h2\<lparr>heap := (heap h2)[0 := last_item]\<rparr>;
                      h4 = h3\<lparr>position_map := (position_map h3)(number last_item \<mapsto> 0)\<rparr>
                  in (bubble_down h4 0, Inr (Some min_item))
                else (h2, Inr (Some min_item)))"

definition front :: "dheap \<Rightarrow> dheap \<times> item option" where
  "front h = (if heap h = [] then (h, None) else (h, Some (heap h ! 0)))"

definition increase_priority :: "dheap \<Rightarrow> item \<Rightarrow> dheap \<times> (error + unit)" where
  "increase_priority h x =
     (case position_map h (number x) of
        None \<Rightarrow> (h, Inl NotFound)
      | Some index \<Rightarrow>
          if \<not> index < length (heap h) then (h, Inl IndexError)
          else if cost x < cost (heap h ! index) then
            let h1 = h\<lparr>heap := (heap h)[index := (heap h ! index)\<lparr>cost := cost x\<rparr>]\<rparr>
            in (bubble_up h1 index, Inr ())
          else (h, Inl InvalidTransition))"

definition decrease_priority :: "dheap \<Rightarrow> item \<Rightarrow> dheap \<times> (error + unit)" where
  "decrease_priority h x =
     (case position_map h (number x) of
        None \<Rightarrow> (h, Inl NotFound)
      | Some index \<Rightarrow>
          if \<not> index < length (heap h) then (h, Inl IndexError)
          else if cost x > cost (heap h ! index) then
            let h1 = h\<lparr>heap := (heap h)[index := (heap h ! index)\<lparr>cost := cost x\<rparr>]\<rparr>
            in (bubble_down h1 index, Inr ())
          else (h, Inl InvalidTransition))"

definition contains :: "dheap \<Rightarrow> item \<Rightarrow> dheap \<times> bool" where
  "contains h x = (h, number x \<in> dom (position_map h))"

definition len :: "dheap \<Rightarrow> dheap \<times> nat" where
  "len h = (h, length (heap h))"

definition is_empty :: "dheap \<Rightarrow> dheap \<times> bool" where
  "is_empty h = (h, length (heap h) = 0)"

section \<open>Invariants\<close>

text \<open>
  The two structural invariants of the heap object. \<open>heap_order\<close>: the item at every
  non-root position costs at least as much as the item at its parent position.
  \<open>map_consistent\<close>: \<open>position_map\<close> sends the identity of the item at each position to
  that position and has no other keys.
\<close>

definition heap_order :: "dheap \<Rightarrow> bool" where
  "heap_order h = (\<forall>i \<in> {1 ..< length (heap h)}. cost (heap h ! parent h i) \<le> cost (heap h ! i))"

definition map_consistent :: "dheap \<Rightarrow> bool" where
  "map_consistent h =
     ((\<forall>i \<in> {0 ..< length (heap h)}. position_map h (number (heap h ! i)) = Some i) \<and>
      dom (position_map h) \<subseteq> number ` set (heap h))"

lemma parent_less: "0 < i \<Longrightarrow> parent h i < i"
  by (auto simp: parent_def intro: le_less_trans [OF div_le_dividend])

lemma parent_eq_iff:
  assumes "0 < d h" "0 < j"
  shows "parent h j = i \<longleftrightarrow> d h * i + 1 \<le> j \<and> j < d h * i + 1 + d h"
proof
  assume "parent h j = i"
  then have i: "i = (j - 1) div d h" by (simp add: parent_def)
  have "d h * i \<le> j - 1" unfolding i by simp
  moreover have "j - 1 < d h * i + d h" unfolding i using assms(1)
    by (metis add.commute dividend_less_times_div mult.commute)
  ultimately show "d h * i + 1 \<le> j \<and> j < d h * i + 1 + d h" using assms(2) by linarith
next
  assume a: "d h * i + 1 \<le> j \<and> j < d h * i + 1 + d h"
  then have "d h * i \<le> j - 1" "j - 1 < d h * Suc i" by auto
  then have "(j - 1) div d h = i" by (rule div_nat_eqI)
  then show "parent h j = i" by (simp add: parent_def)
qed

lemma children_iff:
  "0 < d h \<Longrightarrow> c \<in> set (children h i) \<longleftrightarrow> 0 < c \<and> c < length (heap h) \<and> parent h c = i"
  using parent_eq_iff [of h c i] by (auto simp: children_def Let_def)

lemma min_key_le: "f (min_key f m xs) \<le> f m \<and> (\<forall>x \<in> set xs. f (min_key f m xs) \<le> f x)"
proof (induction xs arbitrary: m)
  case Nil show ?case by simp
next
  case (Cons a xs)
  show ?case using Cons.IH [of "if f a < f m then a else m"] by (auto split: if_splits)
qed

lemma py_min_le: "x \<in> set xs \<Longrightarrow> f (py_min f xs) \<le> f x"
  using min_key_le [of f "hd xs" "tl xs"] by (cases xs) (auto simp: py_min_def)

lemma parent_swap [simp]: "parent (swap h i j) k = parent h k"
  by (simp add: parent_def)

lemma heap_swap_nth:
  "i < length (heap h) \<Longrightarrow> j < length (heap h) \<Longrightarrow> k < length (heap h) \<Longrightarrow>
   heap (swap h i j) ! k = (if k = j then heap h ! i else if k = i then heap h ! j else heap h ! k)"
  by (simp add: swap_def Let_def nth_list_update)

text \<open>
  While \<open>_bubble_up\<close> runs at index \<open>i\<close>, the order may be broken only between \<open>i\<close> and its
  parent, and the children of \<open>i\<close> already respect the parent of \<open>i\<close>. While \<open>_bubble_down\<close>
  runs at \<open>i\<close>, the order may be broken only between \<open>i\<close> and its children.
\<close>

definition up_inv :: "dheap \<Rightarrow> nat \<Rightarrow> bool" where
  "up_inv h i =
     ((\<forall>j \<in> {1 ..< length (heap h)}. j \<noteq> i \<longrightarrow> cost (heap h ! parent h j) \<le> cost (heap h ! j)) \<and>
      (\<forall>j \<in> {1 ..< length (heap h)}. 0 < i \<longrightarrow> parent h j = i \<longrightarrow>
          cost (heap h ! parent h i) \<le> cost (heap h ! j)))"

definition down_inv :: "dheap \<Rightarrow> nat \<Rightarrow> bool" where
  "down_inv h i =
     ((\<forall>j \<in> {1 ..< length (heap h)}. parent h j \<noteq> i \<longrightarrow> cost (heap h ! parent h j) \<le> cost (heap h ! j)) \<and>
      (\<forall>j \<in> {1 ..< length (heap h)}. 0 < i \<longrightarrow> parent h j = i \<longrightarrow>
          cost (heap h ! parent h i) \<le> cost (heap h ! j)))"

lemma up_inv_swap:
  assumes i: "0 < i" "i < length (heap h)"
    and inv: "up_inv h i"
    and lt: "cost (heap h ! i) < cost (heap h ! parent h i)"
  shows "up_inv (swap h i (parent h i)) (parent h i)"
proof -
  let ?p = "parent h i"
  let ?c = "\<lambda>k. cost (heap h ! k)"
  let ?c' = "\<lambda>k. cost (heap (swap h i ?p) ! k)"
  have p: "?p < i" using i(1) by (rule parent_less)
  have c': "?c' k = (if k = ?p then ?c i else if k = i then ?c ?p else ?c k)"
    if "k < length (heap h)" for k
    using heap_swap_nth [of i h ?p k] i p that by simp
  have A1: "?c (parent h j) \<le> ?c j" if "0 < j" "j < length (heap h)" "j \<noteq> i" for j
    using inv that by (simp add: up_inv_def)
  have A2: "?c ?p \<le> ?c j" if "0 < j" "j < length (heap h)" "parent h j = i" for j
    using inv that i(1) by (simp add: up_inv_def)
  have G1: "?c' (parent h j) \<le> ?c' j" if j: "0 < j" "j < length (heap h)" "j \<noteq> ?p" for j
  proof -
    have q: "parent h j < j" using j(1) by (rule parent_less)
    then have ql: "parent h j < length (heap h)" using j(2) by simp
    show ?thesis
    proof (cases "j = i")
      case True
      then show ?thesis using c' [of i] c' [of ?p] i p lt by simp
    next
      case False
      then have cj: "?c' j = ?c j" using c' [OF j(2)] j(3) by simp
      consider "parent h j = ?p" | "parent h j = i" | "parent h j \<noteq> ?p" "parent h j \<noteq> i"
        by blast
      then show ?thesis
      proof cases
        case 1
        then show ?thesis using cj c' [OF ql] A1 [OF j(1,2) False] lt by simp
      next
        case 2
        then show ?thesis using cj c' [OF ql] A2 [OF j(1,2)] p by simp
      next
        case 3
        then show ?thesis using cj c' [OF ql] A1 [OF j(1,2) False] by simp
      qed
    qed
  qed
  have G2: "?c' (parent h ?p) \<le> ?c' j"
    if j: "0 < j" "j < length (heap h)" "0 < ?p" "parent h j = ?p" for j
  proof -
    have g: "parent h ?p < ?p" using j(3) by (rule parent_less)
    have cg: "?c' (parent h ?p) = ?c (parent h ?p)"
      using c' [of "parent h ?p"] g p i(2) by simp
    have gp: "?c (parent h ?p) \<le> ?c ?p"
      using A1 [of ?p] j(3) p i(2) by simp
    have jp: "j \<noteq> ?p" using parent_less [OF j(1), of h] j(4) by simp
    show ?thesis
    proof (cases "j = i")
      case True
      then show ?thesis using cg gp c' [of i] i(2) p by simp
    next
      case False
      then show ?thesis using cg gp c' [OF j(2)] jp A1 [OF j(1,2) False] j(4) by simp
    qed
  qed
  show ?thesis
    unfolding up_inv_def
  proof (intro conjI ballI impI)
    fix j assume "j \<in> {1 ..< length (heap (swap h i ?p))}" "j \<noteq> ?p"
    then show "?c' (parent (swap h i ?p) j) \<le> ?c' j"
      using G1 [of j] by simp
  next
    fix j assume "j \<in> {1 ..< length (heap (swap h i ?p))}" "0 < ?p" "parent (swap h i ?p) j = ?p"
    then show "?c' (parent (swap h i ?p) ?p) \<le> ?c' j"
      using G2 [of j] by simp
  qed
qed

lemma up_inv_done:
  assumes "up_inv h i" "i = 0 \<or> \<not> cost (heap h ! i) < cost (heap h ! parent h i)"
  shows "heap_order h"
  unfolding heap_order_def
proof
  fix j assume j: "j \<in> {1 ..< length (heap h)}"
  show "cost (heap h ! parent h j) \<le> cost (heap h ! j)"
  proof (cases "j = i")
    case True
    then show ?thesis using assms(2) j by auto
  next
    case False
    then show ?thesis using assms(1) j by (simp add: up_inv_def)
  qed
qed

lemma bubble_up_order:
  "i < length (heap h) \<Longrightarrow> up_inv h i \<Longrightarrow> heap_order (bubble_up h i)"
proof (induction h i rule: bubble_up.induct)
  case (1 h index)
  show ?case
  proof (cases "0 < index \<and> cost (heap h ! index) < cost (heap h ! parent h index)")
    case True
    then have p: "parent h index < index" by (simp add: parent_less)
    have "heap_order (bubble_up (swap h index (parent h index)) (parent h index))"
      using True p "1.prems" up_inv_swap [of index h]
      by (intro "1.IH") simp_all
    then show ?thesis using True by (subst bubble_up.simps) simp
  next
    case False
    then have "bubble_up h index = h" by (subst bubble_up.simps) auto
    then show ?thesis using up_inv_done [OF "1.prems"(2)] False by auto
  qed
qed

lemma down_inv_swap:
  assumes dpos: "0 < d h" and i: "i < length (heap h)"
    and inv: "down_inv h i"
    and ne: "children h i \<noteq> []"
    and m: "m = py_min (\<lambda>k. cost (heap h ! k)) (children h i)"
    and gt: "cost (heap h ! m) < cost (heap h ! i)"
  shows "down_inv (swap h i m) m"
proof -
  let ?c = "\<lambda>k. cost (heap h ! k)"
  let ?c' = "\<lambda>k. cost (heap (swap h i m) ! k)"
  have mc: "m \<in> set (children h i)" unfolding m using ne by (rule py_min_in)
  then have m0: "0 < m" and ml: "m < length (heap h)" and pm: "parent h m = i"
    using children_iff [OF dpos] by auto
  have im: "i < m" using parent_less [OF m0, of h] pm by simp
  have c': "?c' k = (if k = m then ?c i else if k = i then ?c m else ?c k)"
    if "k < length (heap h)" for k
    using heap_swap_nth [of i h m k] i ml that by simp
  have least: "?c m \<le> ?c j" if "0 < j" "j < length (heap h)" "parent h j = i" for j
  proof -
    have "j \<in> set (children h i)" using that children_iff [OF dpos] by simp
    then show ?thesis unfolding m by (rule py_min_le)
  qed
  have A1: "?c (parent h j) \<le> ?c j" if "0 < j" "j < length (heap h)" "parent h j \<noteq> i" for j
    using inv that by (simp add: down_inv_def)
  have A2: "?c (parent h i) \<le> ?c j" if "0 < j" "j < length (heap h)" "0 < i" "parent h j = i" for j
    using inv that by (simp add: down_inv_def)
  have G1: "?c' (parent h j) \<le> ?c' j"
    if j: "0 < j" "j < length (heap h)" "parent h j \<noteq> m" for j
  proof -
    have q: "parent h j < j" using j(1) by (rule parent_less)
    then have ql: "parent h j < length (heap h)" using j(2) by simp
    consider "parent h j = i" "j = m" | "parent h j = i" "j \<noteq> m" | "parent h j \<noteq> i" "j = i"
      | "parent h j \<noteq> i" "j \<noteq> i"
      by blast
    then show ?thesis
    proof cases
      case 1
      then show ?thesis using c' [OF i] c' [OF ml] im gt by simp
    next
      case 2
      then have "j \<noteq> i" using q by auto
      then show ?thesis using 2 c' [OF i] c' [OF j(2)] im least [OF j(1,2)] by simp
    next
      case 3
      then have i0: "0 < i" using j(1) by simp
      have pl: "parent h i < i" using i0 by (rule parent_less)
      have "?c (parent h i) \<le> ?c m" using A2 [OF m0 ml i0 pm] .
      moreover have "?c' (parent h i) = ?c (parent h i)"
        using c' [of "parent h i"] pl i im by simp
      ultimately show ?thesis using 3 c' [OF i] im by simp
    next
      case 4
      have jm: "j \<noteq> m" using 4(1) pm by auto
      have "?c' (parent h j) = ?c (parent h j)"
        using c' [OF ql] 4(1) j(3) by simp
      then show ?thesis using c' [OF j(2)] jm 4 A1 [OF j(1,2)] by simp
    qed
  qed
  have G2: "?c' (parent h m) \<le> ?c' j"
    if j: "0 < j" "j < length (heap h)" "parent h j = m" for j
  proof -
    have mj: "m < j" using parent_less [OF j(1), of h] j(3) by simp
    have "?c m \<le> ?c j" using A1 [OF j(1,2)] j(3) im by simp
    moreover have "?c' j = ?c j" using c' [OF j(2)] mj im by simp
    moreover have "?c' i = ?c m" using c' [OF i] im by simp
    ultimately show ?thesis using pm by simp
  qed
  show ?thesis
    unfolding down_inv_def
  proof (intro conjI ballI impI)
    fix j assume "j \<in> {1 ..< length (heap (swap h i m))}" "parent (swap h i m) j \<noteq> m"
    then show "?c' (parent (swap h i m) j) \<le> ?c' j"
      using G1 [of j] by simp
  next
    fix j assume "j \<in> {1 ..< length (heap (swap h i m))}" "0 < m" "parent (swap h i m) j = m"
    then show "?c' (parent (swap h i m) m) \<le> ?c' j"
      using G2 [of j] by simp
  qed
qed

lemma down_inv_done:
  assumes dpos: "0 < d h" and inv: "down_inv h i"
    and stop: "children h i = [] \<or>
       \<not> cost (heap h ! py_min (\<lambda>k. cost (heap h ! k)) (children h i)) < cost (heap h ! i)"
  shows "heap_order h"
  unfolding heap_order_def
proof
  fix j assume j: "j \<in> {1 ..< length (heap h)}"
  show "cost (heap h ! parent h j) \<le> cost (heap h ! j)"
  proof (cases "parent h j = i")
    case True
    then have jc: "j \<in> set (children h i)" using j children_iff [OF dpos] by simp
    then have "children h i \<noteq> []" by auto
    with stop have "cost (heap h ! i) \<le> cost (heap h ! py_min (\<lambda>k. cost (heap h ! k)) (children h i))"
      by simp
    also have "\<dots> \<le> cost (heap h ! j)" using jc by (rule py_min_le)
    finally show ?thesis using True by simp
  next
    case False
    then show ?thesis using inv j by (simp add: down_inv_def)
  qed
qed

lemma bubble_down_order:
  "0 < d h \<Longrightarrow> i < length (heap h) \<Longrightarrow> down_inv h i \<Longrightarrow> heap_order (bubble_down h i)"
proof (induction h i rule: bubble_down.induct)
  case (1 h index)
  let ?m = "py_min (\<lambda>i. cost (heap h ! i)) (children h index)"
  show ?case
  proof (cases "children h index \<noteq> [] \<and> cost (heap h ! ?m) < cost (heap h ! index)")
    case True
    then have "?m \<in> set (children h index)" by (simp add: py_min_in)
    then have ml: "?m < length (heap h)" using children_gt by blast
    have "down_inv (swap h index ?m) ?m"
      using "1.prems" True by (intro down_inv_swap) simp_all
    then have "heap_order (bubble_down (swap h index ?m) ?m)"
      using True ml "1.prems"(1) by (intro "1.IH") simp_all
    then show ?thesis using True by (subst bubble_down.simps) simp
  next
    case False
    then have "bubble_down h index = h" by (subst bubble_down.simps) auto
    then show ?thesis using down_inv_done [OF "1.prems"(1,3)] False by auto
  qed
qed

lemma bubble_up_preserves:
  assumes "i < length (heap h)" "P h"
    and step: "\<And>h i j. i < length (heap h) \<Longrightarrow> j < length (heap h) \<Longrightarrow> P h \<Longrightarrow> P (swap h i j)"
  shows "P (bubble_up h i)"
  using assms(1,2)
proof (induction h i rule: bubble_up.induct)
  case (1 h index)
  show ?case
  proof (cases "0 < index \<and> cost (heap h ! index) < cost (heap h ! parent h index)")
    case True
    then have p: "parent h index < length (heap h)"
      using parent_less [of index h] "1.prems"(1) by simp
    have "P (swap h index (parent h index))"
      using "1.prems" p by (intro step)
    then have "P (bubble_up (swap h index (parent h index)) (parent h index))"
      using True p by (intro "1.IH") simp_all
    then show ?thesis using True by (subst bubble_up.simps) simp
  next
    case False
    then have "bubble_up h index = h" by (subst bubble_up.simps) auto
    then show ?thesis using "1.prems"(2) by simp
  qed
qed

lemma bubble_down_preserves:
  assumes "i < length (heap h)" "P h"
    and step: "\<And>h i j. i < length (heap h) \<Longrightarrow> j < length (heap h) \<Longrightarrow> P h \<Longrightarrow> P (swap h i j)"
  shows "P (bubble_down h i)"
  using assms(1,2)
proof (induction h i rule: bubble_down.induct)
  case (1 h index)
  let ?m = "py_min (\<lambda>i. cost (heap h ! i)) (children h index)"
  show ?case
  proof (cases "children h index \<noteq> [] \<and> cost (heap h ! ?m) < cost (heap h ! index)")
    case True
    then have "?m \<in> set (children h index)" by (simp add: py_min_in)
    then have ml: "?m < length (heap h)" using children_gt by blast
    have "P (swap h index ?m)"
      using "1.prems" ml by (intro step)
    then have "P (bubble_down (swap h index ?m) ?m)"
      using True ml by (intro "1.IH") simp_all
    then show ?thesis using True by (subst bubble_down.simps) simp
  next
    case False
    then have "bubble_down h index = h" by (subst bubble_down.simps) auto
    then show ?thesis using "1.prems"(2) by simp
  qed
qed

lemma mset_heap_swap:
  "i < length (heap h) \<Longrightarrow> j < length (heap h) \<Longrightarrow> mset (heap (swap h i j)) = mset (heap h)"
  by (simp add: swap_def Let_def mset_swap)

lemma map_consistent_inj:
  assumes "map_consistent h" "i < length (heap h)" "j < length (heap h)"
    "number (heap h ! i) = number (heap h ! j)"
  shows "i = j"
proof -
  have "position_map h (number (heap h ! i)) = Some i" "position_map h (number (heap h ! j)) = Some j"
    using assms(1-3) by (simp_all add: map_consistent_def)
  then have "Some i = Some j" unfolding assms(4) by (rule trans [OF sym])
  then show ?thesis by (rule option.inject [THEN iffD1])
qed

lemma map_consistent_swap:
  assumes mc: "map_consistent h" and i: "i < length (heap h)" and j: "j < length (heap h)"
  shows "map_consistent (swap h i j)"
proof -
  let ?H = "heap h" and ?H' = "heap (swap h i j)"
  let ?pm = "position_map h" and ?pm' = "position_map (swap h i j)"
  have H': "?H' ! k = (if k = j then ?H ! i else if k = i then ?H ! j else ?H ! k)"
    if "k < length ?H" for k
    using heap_swap_nth [OF i j that] .
  have pm': "?pm' = ?pm(number (?H' ! i) \<mapsto> i, number (?H' ! j) \<mapsto> j)"
    by (simp add: swap_def Let_def)
  have pos: "?pm (number (?H ! k)) = Some k" if "k < length ?H" for k
    using mc that by (simp add: map_consistent_def)
  have inj: "k = l" if "k < length ?H" "l < length ?H" "number (?H ! k) = number (?H ! l)" for k l
    using map_consistent_inj [OF mc that] .
  have G1: "?pm' (number (?H' ! k)) = Some k" if k: "k < length ?H" for k
  proof -
    consider "k = j" | "k \<noteq> j" "k = i" | "k \<noteq> j" "k \<noteq> i" by blast
    then show ?thesis
    proof cases
      case 1
      then show ?thesis by (simp add: pm')
    next
      case 2
      then have "number (?H' ! i) \<noteq> number (?H' ! j)"
        using H' [OF i] H' [OF j] inj [OF j i] by auto
      then show ?thesis using 2 by (simp add: pm')
    next
      case 3
      then have "number (?H ! k) \<noteq> number (?H ! i)" "number (?H ! k) \<noteq> number (?H ! j)"
        using inj [OF k i] inj [OF k j] by auto
      then have "number (?H' ! k) \<noteq> number (?H' ! i)" "number (?H' ! k) \<noteq> number (?H' ! j)"
        using H' [OF i] H' [OF j] H' [OF k] 3 by auto
      then show ?thesis using H' [OF k] 3 pos [OF k] by (simp add: pm')
    qed
  qed
  have set_eq: "set ?H' = set ?H"
    using mset_heap_swap [OF i j] by (rule mset_eq_setD)
  have "?H' ! i \<in> set ?H'" "?H' ! j \<in> set ?H'"
    using i j by (simp_all del: set_eq)
  then have G2: "dom ?pm' \<subseteq> number ` set ?H'"
    using mc unfolding pm' set_eq map_consistent_def by auto
  show ?thesis
    unfolding map_consistent_def using G1 G2 by simp
qed

lemma bubble_up_map_consistent:
  assumes "i < length (heap h)" "map_consistent h"
  shows "map_consistent (bubble_up h i)"
  using assms map_consistent_swap by (rule bubble_up_preserves)

lemma bubble_down_map_consistent:
  assumes "i < length (heap h)" "map_consistent h"
  shows "map_consistent (bubble_down h i)"
  using assms map_consistent_swap by (rule bubble_down_preserves)

lemma bubble_up_mset:
  assumes "i < length (heap h)"
  shows "mset (heap (bubble_up h i)) = mset (heap h)"
proof -
  let ?P = "\<lambda>h'. mset (heap h') = mset (heap h)"
  have "?P h" by simp
  moreover have "?P (swap h' k l)" if "k < length (heap h')" "l < length (heap h')" "?P h'" for h' k l
    using that by (simp add: mset_heap_swap)
  ultimately show "?P (bubble_up h i)"
    using assms bubble_up_preserves [of i h ?P] by blast
qed

lemma bubble_down_mset:
  assumes "i < length (heap h)"
  shows "mset (heap (bubble_down h i)) = mset (heap h)"
proof -
  let ?P = "\<lambda>h'. mset (heap h') = mset (heap h)"
  have "?P h" by simp
  moreover have "?P (swap h' k l)" if "k < length (heap h')" "l < length (heap h')" "?P h'" for h' k l
    using that by (simp add: mset_heap_swap)
  ultimately show "?P (bubble_down h i)"
    using assms bubble_down_preserves [of i h ?P] by blast
qed

lemma bubble_up_d:
  assumes "i < length (heap h)"
  shows "d (bubble_up h i) = d h"
proof -
  let ?P = "\<lambda>h'. d h' = d h"
  have "?P h" by simp
  moreover have "?P (swap h' k l)" if "?P h'" for h' k l
    using that by simp
  ultimately show "?P (bubble_up h i)"
    using assms bubble_up_preserves [of i h ?P] by blast
qed

lemma bubble_down_d:
  assumes "i < length (heap h)"
  shows "d (bubble_down h i) = d h"
proof -
  let ?P = "\<lambda>h'. d h' = d h"
  have "?P h" by simp
  moreover have "?P (swap h' k l)" if "?P h'" for h' k l
    using that by simp
  ultimately show "?P (bubble_down h i)"
    using assms bubble_down_preserves [of i h ?P] by blast
qed

lemma bubble_up_length:
  "i < length (heap h) \<Longrightarrow> length (heap (bubble_up h i)) = length (heap h)"
  by (rule mset_eq_length) (rule bubble_up_mset)

lemma bubble_down_length:
  "i < length (heap h) \<Longrightarrow> length (heap (bubble_down h i)) = length (heap h)"
  by (rule mset_eq_length) (rule bubble_down_mset)

subsection \<open>The invariant of the public methods\<close>

text \<open>
  The constructor establishes \<open>invar\<close> and every public method keeps it, whether it returns
  or raises.
\<close>

definition invar :: "dheap \<Rightarrow> bool" where
  "invar h = (2 \<le> d h \<and> heap_order h \<and> map_consistent h)"

lemma parent_heap_update [simp]: "parent (h\<lparr>heap := hp\<rparr>) i = parent h i"
  by (simp add: parent_def)

lemma parent_position_map_update [simp]: "parent (h\<lparr>position_map := pm\<rparr>) i = parent h i"
  by (simp add: parent_def)

lemma invar_init: "init a = Inr h \<Longrightarrow> invar h"
  by (auto simp: init_def invar_def heap_order_def map_consistent_def split: if_splits)

lemma map_consistent_index:
  assumes "map_consistent h" "position_map h k = Some i"
  shows "i < length (heap h) \<and> number (heap h ! i) = k"
proof -
  have "k \<in> number ` set (heap h)"
    using assms by (auto simp: map_consistent_def)
  then obtain j where j: "j < length (heap h)" "k = number (heap h ! j)"
    by (auto simp: in_set_conv_nth)
  then have "position_map h k = Some j"
    using assms(1) by (simp add: map_consistent_def)
  then have "i = j" using assms(2) by simp
  then show ?thesis using j by simp
qed

lemma map_consistent_dom:
  "map_consistent h \<Longrightarrow> dom (position_map h) = number ` set (heap h)"
proof
  assume mc: "map_consistent h"
  then show "dom (position_map h) \<subseteq> number ` set (heap h)"
    by (simp add: map_consistent_def)
  show "number ` set (heap h) \<subseteq> dom (position_map h)"
  proof
    fix k assume "k \<in> number ` set (heap h)"
    then obtain j where "j < length (heap h)" "k = number (heap h ! j)"
      by (auto simp: in_set_conv_nth)
    then have "position_map h k = Some j"
      using mc by (simp add: map_consistent_def)
    then show "k \<in> dom (position_map h)" by blast
  qed
qed

subsection \<open>insert\<close>

lemma insert_item_duplicate:
  "number x \<in> dom (position_map h) \<Longrightarrow> insert_item h x = (h, Inl DuplicateIdentity)"
  by (simp add: insert_item_def)

lemma insert_item_fresh:
  "number x \<notin> dom (position_map h) \<Longrightarrow>
   insert_item h x =
     (bubble_up (h\<lparr>heap := heap h @ [x],
                   position_map := (position_map h)(number x \<mapsto> length (heap h))\<rparr>)
        (length (heap h)), Inr ())"
  by (simp add: insert_item_def Let_def)

lemma appended_map_consistent:
  assumes mc: "map_consistent h" and fresh: "number x \<notin> dom (position_map h)"
  shows "map_consistent (h\<lparr>heap := heap h @ [x],
                   position_map := (position_map h)(number x \<mapsto> length (heap h))\<rparr>)"
proof -
  have ne: "number (heap h ! i) \<noteq> number x" if "i < length (heap h)" for i
  proof -
    have "position_map h (number (heap h ! i)) = Some i"
      using mc that by (simp add: map_consistent_def)
    then show ?thesis using fresh by auto
  qed
  have "dom (position_map h) \<subseteq> number ` set (heap h)"
    using mc by (simp add: map_consistent_def)
  then have D: "dom ((position_map h)(number x \<mapsto> length (heap h))) \<subseteq> number ` set (heap h @ [x])"
    by auto
  have P: "((position_map h)(number x \<mapsto> length (heap h))) (number ((heap h @ [x]) ! i)) = Some i"
    if "i < length (heap h @ [x])" for i
  proof (cases "i < length (heap h)")
    case True
    then show ?thesis using ne [OF True] mc by (simp add: nth_append map_consistent_def)
  next
    case False
    then have "i = length (heap h)" using that by simp
    then show ?thesis by simp
  qed
  show ?thesis
    unfolding map_consistent_def using P D by simp
qed

lemma appended_up_inv:
  assumes "heap_order h"
  shows "up_inv (h\<lparr>heap := heap h @ [x], position_map := pm\<rparr>) (length (heap h))"
  unfolding up_inv_def
proof (intro conjI ballI impI)
  let ?h2 = "h\<lparr>heap := heap h @ [x], position_map := pm\<rparr>"
  fix j assume j: "j \<in> {1 ..< length (heap ?h2)}" "j \<noteq> length (heap h)"
  then have jl: "0 < j" "j < length (heap h)" by auto
  then have "parent h j < length (heap h)" using parent_less [of j h] by simp
  moreover have "cost (heap h ! parent h j) \<le> cost (heap h ! j)"
    using assms jl by (simp add: heap_order_def)
  ultimately show "cost (heap ?h2 ! parent ?h2 j) \<le> cost (heap ?h2 ! j)"
    using jl by (simp add: nth_append)
next
  let ?h2 = "h\<lparr>heap := heap h @ [x], position_map := pm\<rparr>"
  fix j assume j: "j \<in> {1 ..< length (heap ?h2)}" "parent ?h2 j = length (heap h)"
  then have "0 < j" "j \<le> length (heap h)" by auto
  then have False using parent_less [of j h] j(2) by simp
  then show "cost (heap ?h2 ! parent ?h2 (length (heap h))) \<le> cost (heap ?h2 ! j)" ..
qed

lemma invar_insert_item: "invar h \<Longrightarrow> invar (fst (insert_item h x))"
proof (cases "number x \<in> dom (position_map h)")
  case True
  assume "invar h"
  then show ?thesis using True by (simp add: insert_item_duplicate)
next
  case False
  assume inv: "invar h"
  let ?h2 = "h\<lparr>heap := heap h @ [x],
                position_map := (position_map h)(number x \<mapsto> length (heap h))\<rparr>"
  let ?n = "length (heap h)"
  have n: "?n < length (heap ?h2)" by simp
  have "heap_order (bubble_up ?h2 ?n)"
    using n appended_up_inv inv unfolding invar_def by (intro bubble_up_order) simp_all
  moreover have "map_consistent (bubble_up ?h2 ?n)"
    using n appended_map_consistent [OF _ False] inv unfolding invar_def
    by (intro bubble_up_map_consistent) simp_all
  moreover have "d (bubble_up ?h2 ?n) = d h"
    using bubble_up_d [OF n] by simp
  ultimately show ?thesis
    using inv by (simp add: insert_item_fresh [OF False] invar_def)
qed

subsection \<open>pop\<close>

lemma pop_empty: "heap h = [] \<Longrightarrow> pop h = (h, Inr None)"
  by (simp add: pop_def)

lemma root_in_dom:
  assumes "map_consistent h" "heap h \<noteq> []"
  shows "number (heap h ! 0) \<in> dom (position_map h)"
proof -
  have "position_map h (number (heap h ! 0)) = Some 0"
    using assms by (simp add: map_consistent_def)
  then show ?thesis by blast
qed

lemma pop_single:
  assumes "map_consistent h" "length (heap h) = 1"
  shows "pop h = (h\<lparr>heap := [], position_map := (position_map h)(number (heap h ! 0) := None)\<rparr>,
                  Inr (Some (heap h ! 0)))"
proof -
  have ne: "heap h \<noteq> []" using assms(2) by auto
  have b: "butlast (heap h) = []" using assms(2) by (cases "heap h") auto
  show ?thesis
    using root_in_dom [OF assms(1) ne] ne b by (simp add: pop_def Let_def)
qed

lemma pop_many:
  assumes "map_consistent h" "2 \<le> length (heap h)"
  shows "pop h =
    (bubble_down
       (h\<lparr>heap := (butlast (heap h))[0 := last (heap h)],
          position_map := ((position_map h)(number (heap h ! 0) := None))(number (last (heap h)) \<mapsto> 0)\<rparr>)
       0,
     Inr (Some (heap h ! 0)))"
proof -
  have ne: "heap h \<noteq> []" using assms(2) by auto
  have b: "butlast (heap h) \<noteq> []" using assms(2) by (cases "heap h") auto
  show ?thesis
    using root_in_dom [OF assms(1) ne] ne b by (simp add: pop_def Let_def)
qed

lemma moved_nth:
  assumes "2 \<le> length H" "i < length H - 1"
  shows "(butlast H)[0 := last H] ! i = (if i = 0 then H ! (length H - 1) else H ! i)"
proof -
  have "H \<noteq> []" using assms(1) by auto
  then have "last H = H ! (length H - 1)" by (rule last_conv_nth)
  then show ?thesis using assms by (simp add: nth_list_update nth_butlast)
qed

lemma moved_map_consistent:
  assumes mc: "map_consistent h" and len: "2 \<le> length (heap h)"
  shows "map_consistent
       (h\<lparr>heap := (butlast (heap h))[0 := last (heap h)],
          position_map := ((position_map h)(number (heap h ! 0) := None))(number (last (heap h)) \<mapsto> 0)\<rparr>)"
    (is "map_consistent ?h4")
proof -
  let ?H = "heap h" and ?n = "length (heap h)"
  let ?pm4 = "((position_map h)(number (?H ! 0) := None))(number (last ?H) \<mapsto> 0)"
  have "?H \<noteq> []" using len by auto
  then have last: "last ?H = ?H ! (?n - 1)" by (rule last_conv_nth)
  have pos: "position_map h (number (?H ! k)) = Some k" if "k < ?n" for k
    using mc that by (simp add: map_consistent_def)
  have inj: "k = l" if "k < ?n" "l < ?n" "number (?H ! k) = number (?H ! l)" for k l
    using map_consistent_inj [OF mc that] .
  have P: "?pm4 (number ((butlast ?H)[0 := last ?H] ! i)) = Some i" if i: "i < ?n - 1" for i
  proof (cases "i = 0")
    case True
    then show ?thesis using moved_nth [OF len i] last by simp
  next
    case False
    have il: "i < ?n" "0 < ?n" "?n - 1 < ?n" using i len by linarith+
    have "number (?H ! i) \<noteq> number (?H ! 0)"
    proof
      assume "number (?H ! i) = number (?H ! 0)"
      then have "i = 0" by (rule inj [OF il(1,2)])
      then show False using False by simp
    qed
    moreover have "number (?H ! i) \<noteq> number (?H ! (?n - 1))"
    proof
      assume "number (?H ! i) = number (?H ! (?n - 1))"
      then have "i = ?n - 1" by (rule inj [OF il(1,3)])
      then show False using i by simp
    qed
    ultimately show ?thesis using moved_nth [OF len i] False last pos [of i] i by simp
  qed
  have D: "k \<in> number ` set ((butlast ?H)[0 := last ?H])" if k: "k \<in> dom ?pm4" for k
  proof (cases "k = number (last ?H)")
    case True
    have "(butlast ?H)[0 := last ?H] ! 0 \<in> set ((butlast ?H)[0 := last ?H])"
      using len by (intro nth_mem) simp
    then show ?thesis using True len by (auto simp: nth_list_update)
  next
    case False
    then have "k \<in> dom (position_map h)" "k \<noteq> number (?H ! 0)"
      using k by (auto split: if_splits)
    then obtain j where j: "position_map h k = Some j" by blast
    have jn: "j < ?n" "number (?H ! j) = k" using map_consistent_index [OF mc j] by simp_all
    have "j \<noteq> 0" using jn(2) \<open>k \<noteq> number (?H ! 0)\<close> by (cases "j = 0") simp_all
    moreover have "j \<noteq> ?n - 1" using jn(2) False last by (cases "j = ?n - 1") simp_all
    ultimately have ji: "j < ?n - 1" "(butlast ?H)[0 := last ?H] ! j = ?H ! j"
      using jn(1) moved_nth [OF len, of j] by simp_all
    then have "(butlast ?H)[0 := last ?H] ! j \<in> set ((butlast ?H)[0 := last ?H])"
      by (intro nth_mem) simp
    then show ?thesis using ji jn(2) by (metis imageI)
  qed
  show ?thesis
    unfolding map_consistent_def using P D by auto
qed

lemma moved_down_inv:
  assumes ho: "heap_order h" and len: "2 \<le> length (heap h)"
  shows "down_inv (h\<lparr>heap := (butlast (heap h))[0 := last (heap h)], position_map := pm\<rparr>) 0"
  unfolding down_inv_def
proof (intro conjI ballI impI)
  let ?h4 = "h\<lparr>heap := (butlast (heap h))[0 := last (heap h)], position_map := pm\<rparr>"
  fix j assume j: "j \<in> {1 ..< length (heap ?h4)}" "parent ?h4 j \<noteq> 0"
  then have jl: "0 < j" "j < length (heap h) - 1" "parent h j \<noteq> 0" by auto
  then have pl: "parent h j < length (heap h) - 1" using parent_less [of j h] by simp
  have "cost (heap h ! parent h j) \<le> cost (heap h ! j)"
    using ho jl by (simp add: heap_order_def)
  then show "cost (heap ?h4 ! parent ?h4 j) \<le> cost (heap ?h4 ! j)"
    using moved_nth [OF len jl(2)] moved_nth [OF len pl] jl by simp
next
  let ?h4 = "h\<lparr>heap := (butlast (heap h))[0 := last (heap h)], position_map := pm\<rparr>"
  fix j assume "(0::nat) < 0"
  then show "cost (heap ?h4 ! parent ?h4 0) \<le> cost (heap ?h4 ! j)" by simp
qed

lemma moved_mset:
  assumes "2 \<le> length H"
  shows "mset ((butlast H)[0 := last H]) = mset H - {#H ! 0#}"
proof -
  obtain x ys where H1: "H = x # ys"
    using assms by (cases H) auto
  then have "ys \<noteq> []" using assms by (cases ys) auto
  note H = H1 this
  then have "(butlast H)[0 := last H] = last ys # butlast ys" by simp
  moreover have "mset (last ys # butlast ys) = mset (butlast ys @ [last ys])" by simp
  ultimately show ?thesis using H by (simp del: mset_append add_mset_commute)
qed

lemma invar_pop: "invar h \<Longrightarrow> invar (fst (pop h))"
proof -
  assume inv: "invar h"
  then have mc: "map_consistent h" and ho: "heap_order h" and dh: "2 \<le> d h"
    by (simp_all add: invar_def)
  consider "heap h = []" | "length (heap h) = 1" | "2 \<le> length (heap h)"
    by (cases "heap h") (auto simp: Suc_le_eq)
  then show ?thesis
  proof cases
    case 1
    then show ?thesis using inv by (simp add: pop_empty)
  next
    case 2
    have "dom (position_map h) = {number (heap h ! 0)}"
      using map_consistent_dom [OF mc] 2 by (cases "heap h") auto
    then have "dom ((position_map h)(number (heap h ! 0) := None)) = {}"
      by auto
    then show ?thesis
      using dh by (simp add: pop_single [OF mc 2] invar_def heap_order_def map_consistent_def)
  next
    case 3
    let ?h4 = "h\<lparr>heap := (butlast (heap h))[0 := last (heap h)],
          position_map := ((position_map h)(number (heap h ! 0) := None))(number (last (heap h)) \<mapsto> 0)\<rparr>"
    have z: "0 < length (heap ?h4)" using 3 by simp
    have "heap_order (bubble_down ?h4 0)"
      using z moved_down_inv [OF ho 3] dh by (intro bubble_down_order) simp_all
    moreover have "map_consistent (bubble_down ?h4 0)"
      using z moved_map_consistent [OF mc 3] by (intro bubble_down_map_consistent)
    moreover have "d (bubble_down ?h4 0) = d h"
      using bubble_down_d [OF z] by simp
    ultimately show ?thesis
      using dh by (simp add: pop_many [OF mc 3] invar_def)
  qed
qed

subsection \<open>Priority changes\<close>

lemma increase_priority_absent:
  "position_map h (number x) = None \<Longrightarrow> increase_priority h x = (h, Inl NotFound)"
  by (simp add: increase_priority_def)

lemma decrease_priority_absent:
  "position_map h (number x) = None \<Longrightarrow> decrease_priority h x = (h, Inl NotFound)"
  by (simp add: decrease_priority_def)

lemma increase_priority_present:
  assumes "map_consistent h" "position_map h (number x) = Some index"
  shows "increase_priority h x =
     (if cost x < cost (heap h ! index)
      then (bubble_up (h\<lparr>heap := (heap h)[index := (heap h ! index)\<lparr>cost := cost x\<rparr>]\<rparr>) index, Inr ())
      else (h, Inl InvalidTransition))"
  using map_consistent_index [OF assms] assms(2) by (simp add: increase_priority_def Let_def)

lemma decrease_priority_present:
  assumes "map_consistent h" "position_map h (number x) = Some index"
  shows "decrease_priority h x =
     (if cost (heap h ! index) < cost x
      then (bubble_down (h\<lparr>heap := (heap h)[index := (heap h ! index)\<lparr>cost := cost x\<rparr>]\<rparr>) index, Inr ())
      else (h, Inl InvalidTransition))"
  using map_consistent_index [OF assms] assms(2) by (simp add: decrease_priority_def Let_def)

lemma recost_numbers:
  "map number (H[i := (H ! i)\<lparr>cost := c\<rparr>]) = map number H"
proof (cases "i < length H")
  case True
  then show ?thesis by (intro nth_equalityI) (auto simp: nth_list_update)
next
  case False
  then have "H[i := (H ! i)\<lparr>cost := c\<rparr>] = H" by (intro list_update_beyond) simp
  then show ?thesis by simp
qed

lemma recost_map_consistent:
  assumes mc: "map_consistent h"
  shows "map_consistent (h\<lparr>heap := (heap h)[i := (heap h ! i)\<lparr>cost := c\<rparr>]\<rparr>)"
proof -
  let ?H' = "(heap h)[i := (heap h ! i)\<lparr>cost := c\<rparr>]"
  have "number (?H' ! k) = number (heap h ! k)" if "k < length (heap h)" for k
  proof -
    have "number (?H' ! k) = map number ?H' ! k" using that by simp
    also have "\<dots> = map number (heap h) ! k" by (simp only: recost_numbers)
    finally show ?thesis using that by simp
  qed
  moreover have "number ` set ?H' = number ` set (heap h)"
    using recost_numbers [of "heap h" i c] by (metis set_map)
  ultimately show ?thesis
    using mc by (simp add: map_consistent_def)
qed

lemma recost_up_inv:
  assumes ho: "heap_order h" and i: "i < length (heap h)" and lt: "c < cost (heap h ! i)"
  shows "up_inv (h\<lparr>heap := (heap h)[i := (heap h ! i)\<lparr>cost := c\<rparr>]\<rparr>) i"
    (is "up_inv ?h1 i")
proof -
  let ?c = "\<lambda>k. cost (heap h ! k)" and ?c' = "\<lambda>k. cost (heap ?h1 ! k)"
  have c': "?c' k = (if k = i then c else ?c k)" if "k < length (heap h)" for k
    using that by (simp add: nth_list_update)
  have A: "?c (parent h j) \<le> ?c j" if "0 < j" "j < length (heap h)" for j
    using ho that by (simp add: heap_order_def)
  have G1: "?c' (parent h j) \<le> ?c' j" if j: "0 < j" "j < length (heap h)" "j \<noteq> i" for j
  proof -
    have pl: "parent h j < length (heap h)" using parent_less [OF j(1), of h] j(2) by simp
    show ?thesis using c' [OF pl] c' [OF j(2)] j(3) A [OF j(1,2)] lt by auto
  qed
  have G2: "?c' (parent h i) \<le> ?c' j" if j: "0 < j" "j < length (heap h)" "0 < i" "parent h j = i" for j
  proof -
    have pi: "parent h i < i" using j(3) by (rule parent_less)
    have ji: "j \<noteq> i" using parent_less [OF j(1), of h] j(4) by simp
    have "?c (parent h i) \<le> ?c i" using A [OF j(3) i] .
    also have "\<dots> \<le> ?c j" using A [OF j(1,2)] j(4) by simp
    finally show ?thesis using c' [of "parent h i"] c' [OF j(2)] pi i ji by simp
  qed
  show ?thesis
    unfolding up_inv_def
  proof (intro conjI ballI impI)
    fix j assume "j \<in> {1 ..< length (heap ?h1)}" "j \<noteq> i"
    then show "?c' (parent ?h1 j) \<le> ?c' j" using G1 [of j] by simp
  next
    fix j assume "j \<in> {1 ..< length (heap ?h1)}" "0 < i" "parent ?h1 j = i"
    then show "?c' (parent ?h1 i) \<le> ?c' j" using G2 [of j] by simp
  qed
qed

lemma recost_down_inv:
  assumes ho: "heap_order h" and i: "i < length (heap h)" and lt: "cost (heap h ! i) < c"
  shows "down_inv (h\<lparr>heap := (heap h)[i := (heap h ! i)\<lparr>cost := c\<rparr>]\<rparr>) i"
    (is "down_inv ?h1 i")
proof -
  let ?c = "\<lambda>k. cost (heap h ! k)" and ?c' = "\<lambda>k. cost (heap ?h1 ! k)"
  have c': "?c' k = (if k = i then c else ?c k)" if "k < length (heap h)" for k
    using that by (simp add: nth_list_update)
  have A: "?c (parent h j) \<le> ?c j" if "0 < j" "j < length (heap h)" for j
    using ho that by (simp add: heap_order_def)
  have G1: "?c' (parent h j) \<le> ?c' j" if j: "0 < j" "j < length (heap h)" "parent h j \<noteq> i" for j
  proof -
    have pl: "parent h j < length (heap h)" using parent_less [OF j(1), of h] j(2) by simp
    show ?thesis using c' [OF pl] c' [OF j(2)] j(3) A [OF j(1,2)] lt by auto
  qed
  have G2: "?c' (parent h i) \<le> ?c' j" if j: "0 < j" "j < length (heap h)" "0 < i" "parent h j = i" for j
  proof -
    have pi: "parent h i < i" using j(3) by (rule parent_less)
    have ji: "j \<noteq> i" using parent_less [OF j(1), of h] j(4) by simp
    have "?c (parent h i) \<le> ?c i" using A [OF j(3) i] .
    also have "\<dots> \<le> ?c j" using A [OF j(1,2)] j(4) by simp
    finally show ?thesis using c' [of "parent h i"] c' [OF j(2)] pi i ji by simp
  qed
  show ?thesis
    unfolding down_inv_def
  proof (intro conjI ballI impI)
    fix j assume "j \<in> {1 ..< length (heap ?h1)}" "parent ?h1 j \<noteq> i"
    then show "?c' (parent ?h1 j) \<le> ?c' j" using G1 [of j] by simp
  next
    fix j assume "j \<in> {1 ..< length (heap ?h1)}" "0 < i" "parent ?h1 j = i"
    then show "?c' (parent ?h1 i) \<le> ?c' j" using G2 [of j] by simp
  qed
qed

lemma invar_increase_priority: "invar h \<Longrightarrow> invar (fst (increase_priority h x))"
proof -
  assume inv: "invar h"
  then have mc: "map_consistent h" and ho: "heap_order h" and dh: "2 \<le> d h"
    by (simp_all add: invar_def)
  show ?thesis
  proof (cases "position_map h (number x)")
    case None
    then show ?thesis using inv by (simp add: increase_priority_absent)
  next
    case (Some index)
    note idx = map_consistent_index [OF mc Some]
    show ?thesis
    proof (cases "cost x < cost (heap h ! index)")
      case False
      then show ?thesis using inv by (simp add: increase_priority_present [OF mc Some])
    next
      case True
      let ?h1 = "h\<lparr>heap := (heap h)[index := (heap h ! index)\<lparr>cost := cost x\<rparr>]\<rparr>"
      have l: "index < length (heap ?h1)" using idx by simp
      have "heap_order (bubble_up ?h1 index)"
        using l recost_up_inv [OF ho _ True] idx by (intro bubble_up_order) simp_all
      moreover have "map_consistent (bubble_up ?h1 index)"
        using l recost_map_consistent [OF mc] by (intro bubble_up_map_consistent)
      moreover have "d (bubble_up ?h1 index) = d h"
        using bubble_up_d [OF l] by simp
      ultimately show ?thesis
        using dh True by (simp add: increase_priority_present [OF mc Some] invar_def)
    qed
  qed
qed

lemma invar_decrease_priority: "invar h \<Longrightarrow> invar (fst (decrease_priority h x))"
proof -
  assume inv: "invar h"
  then have mc: "map_consistent h" and ho: "heap_order h" and dh: "2 \<le> d h"
    by (simp_all add: invar_def)
  show ?thesis
  proof (cases "position_map h (number x)")
    case None
    then show ?thesis using inv by (simp add: decrease_priority_absent)
  next
    case (Some index)
    note idx = map_consistent_index [OF mc Some]
    show ?thesis
    proof (cases "cost (heap h ! index) < cost x")
      case False
      then show ?thesis using inv by (simp add: decrease_priority_present [OF mc Some])
    next
      case True
      let ?h1 = "h\<lparr>heap := (heap h)[index := (heap h ! index)\<lparr>cost := cost x\<rparr>]\<rparr>"
      have l: "index < length (heap ?h1)" using idx by simp
      have "heap_order (bubble_down ?h1 index)"
        using l recost_down_inv [OF ho _ True] idx dh by (intro bubble_down_order) simp_all
      moreover have "map_consistent (bubble_down ?h1 index)"
        using l recost_map_consistent [OF mc] by (intro bubble_down_map_consistent)
      moreover have "d (bubble_down ?h1 index) = d h"
        using bubble_down_d [OF l] by simp
      ultimately show ?thesis
        using dh True by (simp add: decrease_priority_present [OF mc Some] invar_def)
    qed
  qed
qed

section \<open>Sequences of calls\<close>

text \<open>
  A caller's use of one heap object is a list of calls. \<open>exec\<close> gives the state a call
  leaves behind, also when the call raises (the caller may catch the exception and go
  on); \<open>run\<close> makes the calls of a list one after the other.
\<close>

datatype op =
    Insert item
  | Pop
  | Front
  | IncreasePriority item
  | DecreasePriority item
  | Contains item
  | Len
  | IsEmpty

fun exec :: "dheap \<Rightarrow> op \<Rightarrow> dheap" where
  "exec h (Insert x) = fst (insert_item h x)"
| "exec h Pop = fst (pop h)"
| "exec h Front = fst (front h)"
| "exec h (IncreasePriority x) = fst (increase_priority h x)"
| "exec h (DecreasePriority x) = fst (decrease_priority h x)"
| "exec h (Contains x) = fst (contains h x)"
| "exec h Len = fst (len h)"
| "exec h IsEmpty = fst (is_empty h)"

fun run :: "dheap \<Rightarrow> op list \<Rightarrow> dheap" where
  "run h [] = h"
| "run h (c # cs) = run (exec h c) cs"

lemma invar_exec: "invar h \<Longrightarrow> invar (exec h c)"
  by (cases c)
    (simp_all add: invar_insert_item invar_pop invar_increase_priority invar_decrease_priority
      front_def contains_def len_def is_empty_def)

lemma invar_run: "invar h \<Longrightarrow> invar (run h cs)"
  by (induction cs arbitrary: h) (simp_all add: invar_exec)

lemma invar_reachable: "init a = Inr h0 \<Longrightarrow> invar (run h0 cs)"
  by (intro invar_run invar_init)


text \<open>
  The scenario of the source's doctests: a 4-ary heap, into which the items (30,30),
  (10,10) and (20,20) are inserted, followed by one \<open>pop\<close>.
\<close>

definition fresh4 :: dheap where
  "fresh4 = \<lparr>d = 4, heap = [], position_map = Map.empty\<rparr>"

definition doctest_ops :: "op list" where
  "doctest_ops =
     [Insert \<lparr>number = 30, cost = 30\<rparr>, Insert \<lparr>number = 10, cost = 10\<rparr>,
      Insert \<lparr>number = 20, cost = 20\<rparr>, Pop]"

lemma init_4: "init 4 = Inr fresh4"
  by (simp add: init_def fresh4_def)

lemma heap_doctest:
  "heap (run fresh4 doctest_ops) = [\<lparr>number = 20, cost = 20\<rparr>, \<lparr>number = 30, cost = 30\<rparr>]"
  by code_simp

section \<open>The claims\<close>



text \<open>
  C2 (map consistency). In every state \<open>h\<close> reached from a constructed heap by public
  operations, the index map sends the identity of the item at each position \<open>i\<close> to \<open>i\<close>,
  and every key of the index map is the identity of an item in the backing list.
\<close>

theorem map_consistency_after_operations:
  assumes "init a = Inr h0" and "h = run h0 cs"
  shows "(\<forall>i < length (heap h). position_map h (number (heap h ! i)) = Some i) \<and>
         dom (position_map h) \<subseteq> number ` set (heap h)"
proof -
  have "map_consistent h"
    using invar_reachable [OF assms(1), of cs] assms(2) by (simp add: invar_def)
  then show ?thesis
    by (simp add: map_consistent_def)
qed

theorem map_consistency_after_operations_witness:
  "init 4 = Inr fresh4 \<and>
   position_map (run fresh4 doctest_ops) 20 = Some 0 \<and>
   position_map (run fresh4 doctest_ops) 30 = Some 1 \<and>
   dom (position_map (run fresh4 doctest_ops)) \<subseteq> {20, 30}"
proof -
  have "\<forall>i < 2. position_map (run fresh4 doctest_ops)
          (number ([\<lparr>number = 20, cost = 20\<rparr>, \<lparr>number = 30, cost = 30\<rparr>] ! i)) = Some i"
    and "dom (position_map (run fresh4 doctest_ops)) \<subseteq> {20, 30}"
    using map_consistency_after_operations [OF init_4 refl, of doctest_ops]
    by (simp_all add: heap_doctest)
  then show ?thesis
    using init_4 by (simp add: less_2_cases_iff)
qed



lemma pop_length:
  assumes "heap h \<noteq> []"
  shows "length (heap (fst (pop h))) = length (heap h) - 1"
proof (cases "number (heap h ! 0) \<in> dom (position_map h)")
  case False
  then show ?thesis using assms by (simp add: pop_def Let_def)
next
  case True
  show ?thesis
  proof (cases "butlast (heap h) = []")
    case e: True
    have "length (butlast (heap h)) = length (heap h) - 1" by (rule length_butlast)
    then have "length (heap h) - 1 = 0" using e by simp
    then show ?thesis using assms True e by (simp add: pop_def Let_def)
  next
    case ne: False
    let ?h4 = "h\<lparr>heap := (butlast (heap h))[0 := last (heap h)],
          position_map := ((position_map h)(number (heap h ! 0) := None))(number (last (heap h)) \<mapsto> 0)\<rparr>"
    have "0 < length (butlast (heap h))" using ne by (simp del: length_butlast)
    then have "0 < length (heap ?h4)" by simp
    then have "length (heap (bubble_down ?h4 0)) = length (heap ?h4)"
      by (rule bubble_down_length)
    moreover have "pop h = (bubble_down ?h4 0, Inr (Some (heap h ! 0)))"
      using assms True ne by (simp add: pop_def Let_def)
    ultimately show ?thesis by simp
  qed
qed



lemma pop_nonempty:
  assumes mc: "map_consistent h" and ne: "heap h \<noteq> []"
  shows "snd (pop h) = Inr (Some (heap h ! 0))"
    and "mset (heap (fst (pop h))) = mset (heap h) - {#heap h ! 0#}"
    and "d (fst (pop h)) = d h"
proof -
  consider "length (heap h) = 1" | "2 \<le> length (heap h)"
    using ne by (cases "heap h") (auto simp: Suc_le_eq)
  then have "snd (pop h) = Inr (Some (heap h ! 0)) \<and>
     mset (heap (fst (pop h))) = mset (heap h) - {#heap h ! 0#} \<and> d (fst (pop h)) = d h"
  proof cases
    case 1
    then have "heap h = [heap h ! 0]" by (cases "heap h") auto
    then have "mset (heap h) - {#heap h ! 0#} = {#}"
      by (metis add_mset_remove_trivial mset.simps(1) mset.simps(2))
    then show ?thesis by (simp add: pop_single [OF mc 1])
  next
    case 2
    let ?h4 = "h\<lparr>heap := (butlast (heap h))[0 := last (heap h)],
          position_map := ((position_map h)(number (heap h ! 0) := None))(number (last (heap h)) \<mapsto> 0)\<rparr>"
    have z: "0 < length (heap ?h4)" using 2 by simp
    show ?thesis
      using bubble_down_mset [OF z] bubble_down_d [OF z] moved_mset [OF 2]
      by (simp add: pop_many [OF mc 2])
  qed
  then show "snd (pop h) = Inr (Some (heap h ! 0))"
    and "mset (heap (fst (pop h))) = mset (heap h) - {#heap h ! 0#}"
    and "d (fst (pop h)) = d h"
    by simp_all
qed




definition three_inserts :: "op list" where
  "three_inserts =
     [Insert \<lparr>number = 30, cost = 30\<rparr>, Insert \<lparr>number = 10, cost = 10\<rparr>,
      Insert \<lparr>number = 20, cost = 20\<rparr>]"



lemma absent_iff:
  assumes "map_consistent h"
  shows "position_map h k = None \<longleftrightarrow> k \<notin> number ` set (heap h)"
proof -
  have "position_map h k = None \<longleftrightarrow> k \<notin> dom (position_map h)"
    by (simp add: domIff)
  then show ?thesis
    by (simp only: map_consistent_dom [OF assms])
qed

text \<open>
  C5 (error contract of the priority changes). In every reachable state \<open>h\<close>:
  when no stored item has the identity of \<open>x\<close>, both \<open>increase_priority\<close> and
  \<open>decrease_priority\<close> raise the "not found" error; when the item stored at position \<open>i\<close>
  has the identity of \<open>x\<close>, \<open>increase_priority\<close> raises the "invalid transition" error
  unless the new cost is strictly lower than the stored one, and \<open>decrease_priority\<close>
  raises it unless the new cost is strictly higher. In each of these cases the state left
  behind is \<open>h\<close> itself.
\<close>

theorem priority_change_errors:
  assumes "init a = Inr h0" and "h = run h0 cs"
  shows "(number x \<notin> number ` set (heap h) \<longrightarrow>
            increase_priority h x = (h, Inl NotFound) \<and>
            decrease_priority h x = (h, Inl NotFound)) \<and>
         (\<forall>i < length (heap h). number (heap h ! i) = number x \<longrightarrow>
            (\<not> cost x < cost (heap h ! i) \<longrightarrow> increase_priority h x = (h, Inl InvalidTransition)) \<and>
            (\<not> cost (heap h ! i) < cost x \<longrightarrow> decrease_priority h x = (h, Inl InvalidTransition)))"
proof -
  have mc: "map_consistent h"
    using invar_reachable [OF assms(1), of cs] assms(2) by (simp add: invar_def)
  have A: "increase_priority h x = (h, Inl NotFound) \<and> decrease_priority h x = (h, Inl NotFound)"
    if "number x \<notin> number ` set (heap h)"
    using that absent_iff [OF mc, of "number x"]
    by (simp add: increase_priority_absent decrease_priority_absent)
  have B: "(\<not> cost x < cost (heap h ! i) \<longrightarrow> increase_priority h x = (h, Inl InvalidTransition)) \<and>
           (\<not> cost (heap h ! i) < cost x \<longrightarrow> decrease_priority h x = (h, Inl InvalidTransition))"
    if i: "i < length (heap h)" "number (heap h ! i) = number x" for i
  proof -
    have "position_map h (number (heap h ! i)) = Some i"
      using mc i(1) by (simp add: map_consistent_def)
    then have "position_map h (number x) = Some i"
      by (simp only: i(2))
    then show ?thesis
      by (simp add: increase_priority_present [OF mc] decrease_priority_present [OF mc])
  qed
  show ?thesis using A B by blast
qed

lemma item_doctest_1:
  "heap (run fresh4 doctest_ops) ! 1 = \<lparr>number = 30, cost = 30\<rparr>"
  by (simp add: heap_doctest)

theorem priority_change_errors_witness:
  "init 4 = Inr fresh4 \<and>
   increase_priority (run fresh4 doctest_ops) \<lparr>number = 10, cost = 5\<rparr>
     = (run fresh4 doctest_ops, Inl NotFound) \<and>
   decrease_priority (run fresh4 doctest_ops) \<lparr>number = 10, cost = 5\<rparr>
     = (run fresh4 doctest_ops, Inl NotFound) \<and>
   increase_priority (run fresh4 doctest_ops) \<lparr>number = 30, cost = 30\<rparr>
     = (run fresh4 doctest_ops, Inl InvalidTransition) \<and>
   decrease_priority (run fresh4 doctest_ops) \<lparr>number = 30, cost = 30\<rparr>
     = (run fresh4 doctest_ops, Inl InvalidTransition)"
proof -
  have l: "(1::nat) < length (heap (run fresh4 doctest_ops))"
    by (simp add: heap_doctest)
  show ?thesis
    using priority_change_errors [where cs = doctest_ops and x = "\<lparr>number = 10, cost = 5\<rparr>",
        OF init_4 refl]
      priority_change_errors [where cs = doctest_ops and x = "\<lparr>number = 30, cost = 30\<rparr>",
        OF init_4 refl]
      init_4 l item_doctest_1
    by (auto simp: heap_doctest)
qed

text \<open>
  C6 (duplicate rejection). In every reachable state \<open>h\<close>, inserting an item whose
  identity is that of a stored item raises the "already exists" error and leaves \<open>h\<close> as
  it is. The same holds in any state at all when the identity is a key of the index map,
  which is what \<open>contains\<close> reports.
\<close>

theorem insert_duplicate_rejected:
  assumes "init a = Inr h0" and "h = run h0 cs"
  shows "(y \<in> set (heap h) \<and> number x = number y \<longrightarrow> insert_item h x = (h, Inl DuplicateIdentity)) \<and>
         (snd (contains g x) \<longrightarrow> insert_item g x = (g, Inl DuplicateIdentity))"
proof -
  have mc: "map_consistent h"
    using invar_reachable [OF assms(1), of cs] assms(2) by (simp add: invar_def)
  have "number x \<in> dom (position_map h)" if "y \<in> set (heap h)" "number x = number y"
    using that map_consistent_dom [OF mc] by auto
  then show ?thesis
    by (auto simp: insert_item_duplicate contains_def)
qed

theorem insert_duplicate_rejected_witness:
  "init 4 = Inr fresh4 \<and>
   \<lparr>number = 30, cost = 30\<rparr> \<in> set (heap (run fresh4 doctest_ops)) \<and>
   insert_item (run fresh4 doctest_ops) \<lparr>number = 30, cost = 7\<rparr>
     = (run fresh4 doctest_ops, Inl DuplicateIdentity)"
proof -
  have m: "\<lparr>number = 30, cost = 30\<rparr> \<in> set (heap (run fresh4 doctest_ops))"
    by (simp add: heap_doctest)
  show ?thesis
    using insert_duplicate_rejected [where cs = doctest_ops and y = "\<lparr>number = 30, cost = 30\<rparr>"
        and x = "\<lparr>number = 30, cost = 7\<rparr>" and g = fresh4, OF init_4 refl] init_4 m
    by simp
qed

text \<open>
  C7 (absence on the empty heap). On a state whose backing list is empty, \<open>pop\<close> and
  \<open>front\<close> both return \<open>None\<close> as an ordinary result, not an exception, \<open>is_empty\<close>
  returns \<open>True\<close>, and each of the three calls leaves the state as it is. The constructor
  produces such a state.
\<close>

theorem empty_heap_absence:
  assumes "heap h = []"
  shows "pop h = (h, Inr None) \<and> front h = (h, None) \<and> is_empty h = (h, True)"
  using assms by (simp add: pop_def front_def is_empty_def)

theorem empty_heap_absence_witness:
  "init 4 = Inr fresh4 \<and> heap fresh4 = [] \<and>
   pop fresh4 = (fresh4, Inr None) \<and> front fresh4 = (fresh4, None) \<and>
   is_empty fresh4 = (fresh4, True)"
proof -
  have e: "heap fresh4 = []" by (simp add: fresh4_def)
  show ?thesis using empty_heap_absence [OF e] e init_4 by simp
qed

text \<open>
  Counting what a sequence of calls did: an insert counts when it returned without
  raising, a pop counts when it returned an item (a pop on the empty heap returns \<open>None\<close>
  and removes nothing).
\<close>

fun insert_succeeds :: "dheap \<Rightarrow> op \<Rightarrow> bool" where
  "insert_succeeds h (Insert x) = (case snd (insert_item h x) of Inr _ \<Rightarrow> True | Inl _ \<Rightarrow> False)"
| "insert_succeeds h _ = False"

fun pop_succeeds :: "dheap \<Rightarrow> op \<Rightarrow> bool" where
  "pop_succeeds h Pop = (case snd (pop h) of Inr (Some _) \<Rightarrow> True | _ \<Rightarrow> False)"
| "pop_succeeds h _ = False"

fun count_inserts :: "dheap \<Rightarrow> op list \<Rightarrow> nat" where
  "count_inserts h [] = 0"
| "count_inserts h (c # cs) = (if insert_succeeds h c then 1 else 0) + count_inserts (exec h c) cs"

fun count_pops :: "dheap \<Rightarrow> op list \<Rightarrow> nat" where
  "count_pops h [] = 0"
| "count_pops h (c # cs) = (if pop_succeeds h c then 1 else 0) + count_pops (exec h c) cs"

lemma insert_item_length:
  "length (heap (fst (insert_item h x))) =
     (if number x \<in> dom (position_map h) then length (heap h) else length (heap h) + 1)"
proof (cases "number x \<in> dom (position_map h)")
  case True
  then show ?thesis by (simp add: insert_item_duplicate)
next
  case False
  let ?h2 = "h\<lparr>heap := heap h @ [x],
                position_map := (position_map h)(number x \<mapsto> length (heap h))\<rparr>"
  have "length (heap h) < length (heap ?h2)" by simp
  then have "length (heap (bubble_up ?h2 (length (heap h)))) = length (heap ?h2)"
    by (rule bubble_up_length)
  then show ?thesis using False by (simp add: insert_item_fresh)
qed

lemma insert_item_outcome:
  "snd (insert_item h x) = (if number x \<in> dom (position_map h) then Inl DuplicateIdentity else Inr ())"
  by (simp add: insert_item_def Let_def)

lemma increase_priority_length:
  assumes "map_consistent h"
  shows "length (heap (fst (increase_priority h x))) = length (heap h)"
proof (cases "position_map h (number x)")
  case None
  then show ?thesis by (simp add: increase_priority_absent)
next
  case (Some index)
  let ?h1 = "h\<lparr>heap := (heap h)[index := (heap h ! index)\<lparr>cost := cost x\<rparr>]\<rparr>"
  have "index < length (heap ?h1)" using map_consistent_index [OF assms Some] by simp
  then have "length (heap (bubble_up ?h1 index)) = length (heap ?h1)" by (rule bubble_up_length)
  then show ?thesis by (simp add: increase_priority_present [OF assms Some])
qed

lemma decrease_priority_length:
  assumes "map_consistent h"
  shows "length (heap (fst (decrease_priority h x))) = length (heap h)"
proof (cases "position_map h (number x)")
  case None
  then show ?thesis by (simp add: decrease_priority_absent)
next
  case (Some index)
  let ?h1 = "h\<lparr>heap := (heap h)[index := (heap h ! index)\<lparr>cost := cost x\<rparr>]\<rparr>"
  have "index < length (heap ?h1)" using map_consistent_index [OF assms Some] by simp
  then have "length (heap (bubble_down ?h1 index)) = length (heap ?h1)" by (rule bubble_down_length)
  then show ?thesis by (simp add: decrease_priority_present [OF assms Some])
qed

lemma exec_size:
  assumes "invar h"
  shows "length (heap (exec h c)) + (if pop_succeeds h c then 1 else 0)
         = length (heap h) + (if insert_succeeds h c then 1 else 0)"
proof -
  have mc: "map_consistent h" using assms by (simp add: invar_def)
  show ?thesis
  proof (cases c)
    case (Insert x)
    then show ?thesis by (simp add: insert_item_length insert_item_outcome)
  next
    case Pop
    show ?thesis
    proof (cases "heap h = []")
      case True
      then show ?thesis using Pop by (simp add: pop_empty)
    next
      case False
      then have "0 < length (heap h)" by simp
      then show ?thesis
        using Pop pop_length [OF False] pop_nonempty(1) [OF mc False] by simp
    qed
  next
    case (IncreasePriority x)
    then show ?thesis by (simp add: increase_priority_length [OF mc])
  next
    case (DecreasePriority x)
    then show ?thesis by (simp add: decrease_priority_length [OF mc])
  qed (simp_all add: front_def contains_def len_def is_empty_def)
qed

lemma run_size:
  "invar h \<Longrightarrow>
   length (heap (run h cs)) + count_pops h cs = length (heap h) + count_inserts h cs"
proof (induction cs arbitrary: h)
  case Nil
  then show ?case by simp
next
  case (Cons c cs)
  have "length (heap (run (exec h c) cs)) + count_pops (exec h c) cs
        = length (heap (exec h c)) + count_inserts (exec h c) cs"
    using Cons.prems by (intro Cons.IH invar_exec)
  then show ?case
    using exec_size [OF Cons.prems, of c] by simp
qed

text \<open>
  C8 (size law). Start from a constructed heap and make any sequence of calls. If \<open>k\<close>
  of them are inserts that succeeded and \<open>j\<close> are pops that returned an item, then
  \<open>j \<le> k\<close>, \<open>len\<close> afterwards returns \<open>k - j\<close>, and \<open>is_empty\<close> returns \<open>True\<close> exactly when
  \<open>k - j = 0\<close>. Failed inserts, pops on the empty heap, priority changes and queries
  may be interleaved freely; they do not count.
\<close>

theorem size_law:
  assumes "init a = Inr h0" and "h = run h0 cs"
    and "k = count_inserts h0 cs" and "j = count_pops h0 cs"
  shows "j \<le> k \<and> len h = (h, k - j) \<and> is_empty h = (h, k - j = 0)"
proof -
  have "heap h0 = []" using assms(1) by (auto simp: init_def split: if_splits)
  then have "length (heap h) + j = k"
    using run_size [OF invar_init [OF assms(1)], of cs] assms(2-4) by simp
  then show ?thesis
    by (auto simp: len_def is_empty_def)
qed

definition mixed_ops :: "op list" where
  "mixed_ops =
     [Pop, Insert \<lparr>number = 30, cost = 30\<rparr>, Insert \<lparr>number = 10, cost = 10\<rparr>,
      Insert \<lparr>number = 30, cost = 5\<rparr>, Insert \<lparr>number = 20, cost = 20\<rparr>, Pop]"

lemma mixed_counts: "count_inserts fresh4 mixed_ops = 3" "count_pops fresh4 mixed_ops = 1"
  by code_simp+

theorem size_law_witness:
  "init 4 = Inr fresh4 \<and>
   count_inserts fresh4 mixed_ops = 3 \<and> count_pops fresh4 mixed_ops = 1 \<and>
   len (run fresh4 mixed_ops) = (run fresh4 mixed_ops, 2) \<and>
   is_empty (run fresh4 mixed_ops) = (run fresh4 mixed_ops, False)"
  using size_law [OF init_4 refl refl refl, of mixed_ops] init_4 mixed_counts by simp

lemma map_consistent_distinct:
  assumes "map_consistent h"
  shows "distinct (map number (heap h))"
  unfolding distinct_conv_nth
proof (intro allI impI)
  fix i j assume "i < length (map number (heap h))" "j < length (map number (heap h))" "i \<noteq> j"
  then show "map number (heap h) ! i \<noteq> map number (heap h) ! j"
    using map_consistent_inj [OF assms, of i j] by auto
qed

lemma insert_item_mset:
  assumes "number x \<notin> dom (position_map h)"
  shows "mset (heap (fst (insert_item h x))) = add_mset x (mset (heap h))"
proof -
  let ?h2 = "h\<lparr>heap := heap h @ [x],
                position_map := (position_map h)(number x \<mapsto> length (heap h))\<rparr>"
  have "length (heap h) < length (heap ?h2)" by simp
  then have "mset (heap (bubble_up ?h2 (length (heap h)))) = mset (heap ?h2)"
    by (rule bubble_up_mset)
  then show ?thesis using assms by (simp add: insert_item_fresh)
qed

lemma popped_identity_gone:
  assumes mc: "map_consistent h" and ne: "heap h \<noteq> []"
    and rest: "mset H' = mset (heap h) - {#heap h ! 0#}"
  shows "number (heap h ! 0) \<notin> number ` set H'"
proof -
  let ?y = "heap h ! 0"
  have y: "?y \<in># mset (heap h)" using ne by simp
  have "mset (map number H') = image_mset number (mset (heap h) - {#?y#})"
    using rest by (metis mset_map)
  also have "\<dots> = image_mset number (mset (heap h)) - image_mset number {#?y#}"
    using y by (intro image_mset_Diff) simp
  finally have eq: "mset (map number H') = mset (map number (heap h)) - {#number ?y#}"
    by simp
  have "count (mset (map number (heap h))) (number ?y) \<le> 1"
    using map_consistent_distinct [OF mc] by (simp add: distinct_count_atmost_1)
  then have "number ?y \<notin># mset (map number (heap h)) - {#number ?y#}"
    by (simp add: in_diff_count)
  then have "number ?y \<notin> set (map number H')"
    using eq by (metis set_mset_mset)
  then show ?thesis by simp
qed

text \<open>
  C9 (round trip). In every reachable state \<open>h\<close>: if \<open>insert\<close> of \<open>x\<close> returns without
  raising and leaves the state \<open>h'\<close>, then \<open>contains\<close> of \<open>x\<close> on \<open>h'\<close> is \<open>True\<close>; and if
  \<open>pop\<close> returns an item \<open>y\<close> and leaves the state \<open>h''\<close>, then \<open>contains\<close> of \<open>y\<close> on \<open>h''\<close>
  is \<open>False\<close>.
\<close>

theorem insert_pop_round_trip:
  assumes "init a = Inr h0" and "h = run h0 cs"
  shows "(insert_item h x = (h', Inr ()) \<longrightarrow> snd (contains h' x)) \<and>
         (pop h = (h'', Inr (Some y)) \<longrightarrow> \<not> snd (contains h'' y))"
proof -
  have inv: "invar h"
    using invar_reachable [OF assms(1), of cs] assms(2) by simp
  then have mc: "map_consistent h" by (simp add: invar_def)
  have A: "snd (contains h' x)" if ins: "insert_item h x = (h', Inr ())"
  proof -
    have fresh: "number x \<notin> dom (position_map h)"
      using ins insert_item_outcome [of h x] by (auto split: if_splits)
    have "invar h'" using invar_insert_item [OF inv, of x] ins by simp
    then have "dom (position_map h') = number ` set (heap h')"
      by (simp add: invar_def map_consistent_dom)
    moreover have "x \<in># mset (heap h')"
      using insert_item_mset [OF fresh] ins by simp
    ultimately show ?thesis by (simp add: contains_def)
  qed
  have B: "\<not> snd (contains h'' y)" if p: "pop h = (h'', Inr (Some y))"
  proof -
    have ne: "heap h \<noteq> []" using p by (auto simp: pop_empty)
    have y: "y = heap h ! 0" using pop_nonempty(1) [OF mc ne] p by simp
    have "invar h''" using invar_pop [OF inv] p by simp
    then have "dom (position_map h'') = number ` set (heap h'')"
      by (simp add: invar_def map_consistent_dom)
    moreover have "number y \<notin> number ` set (heap h'')"
      unfolding y using mc ne pop_nonempty(2) [OF mc ne] p
      by (intro popped_identity_gone) simp_all
    ultimately show ?thesis by (simp add: contains_def)
  qed
  show ?thesis using A B by blast
qed

definition two_inserts :: "op list" where
  "two_inserts = [Insert \<lparr>number = 30, cost = 30\<rparr>, Insert \<lparr>number = 10, cost = 10\<rparr>]"

lemma third_insert:
  "insert_item (run fresh4 two_inserts) \<lparr>number = 20, cost = 20\<rparr>
     = (run fresh4 three_inserts, Inr ())"
proof -
  have "number \<lparr>number = 20, cost = 20\<rparr> \<notin> dom (position_map (run fresh4 two_inserts))"
    by code_simp
  then have "snd (insert_item (run fresh4 two_inserts) \<lparr>number = 20, cost = 20\<rparr>) = Inr ()"
    by (simp add: insert_item_outcome)
  moreover have "fst (insert_item (run fresh4 two_inserts) \<lparr>number = 20, cost = 20\<rparr>)
      = run fresh4 three_inserts"
    by (simp add: two_inserts_def three_inserts_def)
  ultimately show ?thesis by (simp add: prod_eq_iff)
qed

lemma fourth_pop:
  "pop (run fresh4 three_inserts) = (run fresh4 doctest_ops, Inr (Some \<lparr>number = 10, cost = 10\<rparr>))"
proof -
  have "snd (pop (run fresh4 three_inserts)) = Inr (Some \<lparr>number = 10, cost = 10\<rparr>)"
    by code_simp
  moreover have "fst (pop (run fresh4 three_inserts)) = run fresh4 doctest_ops"
    by (simp add: three_inserts_def doctest_ops_def)
  ultimately show ?thesis by (simp add: prod_eq_iff)
qed

theorem insert_pop_round_trip_witness:
  "init 4 = Inr fresh4 \<and>
   insert_item (run fresh4 two_inserts) \<lparr>number = 20, cost = 20\<rparr>
     = (run fresh4 three_inserts, Inr ()) \<and>
   snd (contains (run fresh4 three_inserts) \<lparr>number = 20, cost = 20\<rparr>) \<and>
   pop (run fresh4 three_inserts) = (run fresh4 doctest_ops, Inr (Some \<lparr>number = 10, cost = 10\<rparr>)) \<and>
   \<not> snd (contains (run fresh4 doctest_ops) \<lparr>number = 10, cost = 10\<rparr>)"
  using insert_pop_round_trip [where cs = two_inserts and x = "\<lparr>number = 20, cost = 20\<rparr>"
      and h' = "run fresh4 three_inserts" and h'' = fresh4 and y = "\<lparr>number = 20, cost = 20\<rparr>",
      OF init_4 refl]
    insert_pop_round_trip [where cs = three_inserts and x = "\<lparr>number = 20, cost = 20\<rparr>"
      and h' = fresh4 and h'' = "run fresh4 doctest_ops" and y = "\<lparr>number = 10, cost = 10\<rparr>",
      OF init_4 refl]
    init_4 third_insert fourth_pop
  by simp

lemma recost_frame:
  assumes mc: "map_consistent h" and i: "i < length (heap h)"
    and ms: "mset H' = mset ((heap h)[i := (heap h ! i)\<lparr>cost := c\<rparr>])"
  shows "length H' = length (heap h)"
    and "mset (map number H') = mset (map number (heap h))"
    and "number y \<noteq> number (heap h ! i) \<Longrightarrow> y \<in> set H' \<longleftrightarrow> y \<in> set (heap h)"
    and "y \<in> set H' \<Longrightarrow> number y = number (heap h ! i) \<Longrightarrow> cost y = c"
proof -
  let ?H = "heap h" and ?new = "(heap h ! i)\<lparr>cost := c\<rparr>"
  have upd: "mset H' = add_mset ?new (mset ?H - {#?H ! i#})"
    using ms i by (simp add: mset_update)
  show "length H' = length ?H"
    using mset_eq_length [OF ms] by simp
  have "mset (map number H') = mset (map number (?H[i := ?new]))"
    using ms by (metis mset_map)
  then show "mset (map number H') = mset (map number ?H)"
    by (simp only: recost_numbers)
  have mem: "y \<in> set H' \<longleftrightarrow> y = ?new \<or> y \<in># mset ?H - {#?H ! i#}" for y
    using upd by (metis insert_iff set_mset_add_mset_insert set_mset_mset)
  show "y \<in> set H' \<longleftrightarrow> y \<in> set ?H" if "number y \<noteq> number (?H ! i)"
  proof -
    have "y \<noteq> ?new" "y \<noteq> ?H ! i" using that by auto
    then show ?thesis using mem [of y] by (simp add: in_diff_count count_greater_zero_iff)
  qed
  show "cost y = c" if y: "y \<in> set H'" "number y = number (?H ! i)"
  proof (cases "y = ?new")
    case True
    then show ?thesis by simp
  next
    case False
    then have rest: "y \<in># mset ?H - {#?H ! i#}" using mem [of y] y(1) by simp
    then have "y \<in> set ?H" by (metis in_diffD set_mset_mset)
    then obtain k where k: "k < length ?H" "y = ?H ! k" by (auto simp: in_set_conv_nth)
    then have "k = i" using map_consistent_inj [OF mc k(1) i] y(2) by simp
    then have "?H ! i \<in># mset ?H - {#?H ! i#}" using rest k(2) by simp
    then have "1 < count (mset ?H) (?H ! i)" by (simp add: in_diff_count)
    moreover have "distinct ?H"
      using map_consistent_distinct [OF mc] by (simp add: distinct_map)
    ultimately have False by (auto simp: distinct_count_atmost_1 split: if_splits)
    then show ?thesis ..
  qed
qed

lemma increase_priority_success:
  assumes mc: "map_consistent h" and ok: "increase_priority h x = (h', Inr ())"
  shows "\<exists>i < length (heap h). number (heap h ! i) = number x \<and> d h' = d h \<and>
           mset (heap h') = mset ((heap h)[i := (heap h ! i)\<lparr>cost := cost x\<rparr>])"
proof (cases "position_map h (number x)")
  case None
  then show ?thesis using ok by (simp add: increase_priority_absent)
next
  case (Some index)
  note idx = map_consistent_index [OF mc Some]
  let ?h1 = "h\<lparr>heap := (heap h)[index := (heap h ! index)\<lparr>cost := cost x\<rparr>]\<rparr>"
  have l: "index < length (heap ?h1)" using idx by simp
  have "h' = bubble_up ?h1 index"
    using ok by (simp add: increase_priority_present [OF mc Some] split: if_splits)
  then have "d h' = d h" "mset (heap h') = mset (heap ?h1)"
    using bubble_up_d [OF l] bubble_up_mset [OF l] by simp_all
  then show ?thesis using idx by auto
qed

lemma decrease_priority_success:
  assumes mc: "map_consistent h" and ok: "decrease_priority h x = (h', Inr ())"
  shows "\<exists>i < length (heap h). number (heap h ! i) = number x \<and> d h' = d h \<and>
           mset (heap h') = mset ((heap h)[i := (heap h ! i)\<lparr>cost := cost x\<rparr>])"
proof (cases "position_map h (number x)")
  case None
  then show ?thesis using ok by (simp add: decrease_priority_absent)
next
  case (Some index)
  note idx = map_consistent_index [OF mc Some]
  let ?h1 = "h\<lparr>heap := (heap h)[index := (heap h ! index)\<lparr>cost := cost x\<rparr>]\<rparr>"
  have l: "index < length (heap ?h1)" using idx by simp
  have "h' = bubble_down ?h1 index"
    using ok by (simp add: decrease_priority_present [OF mc Some] split: if_splits)
  then have "d h' = d h" "mset (heap h') = mset (heap ?h1)"
    using bubble_down_d [OF l] bubble_down_mset [OF l] by simp_all
  then show ?thesis using idx by auto
qed

text \<open>
  C10 (frame of a successful priority change). In every reachable state \<open>h\<close>, if
  \<open>increase_priority\<close> or \<open>decrease_priority\<close> of \<open>x\<close> returns without raising and leaves
  the state \<open>h'\<close>, then: the arity and the number of stored items are unchanged; the
  stored identities are the same, with the same multiplicities, and they are the keys of
  the index map before and after; every item whose identity differs from that of \<open>x\<close> is
  stored afterwards exactly if it was stored before, cost included; and the item with the
  identity of \<open>x\<close> now has the cost of \<open>x\<close>. Positions may differ; C2 says the index map
  of \<open>h'\<close> matches them.
\<close>

theorem priority_change_frame:
  assumes "init a = Inr h0" and "h = run h0 cs"
    and "increase_priority h x = (h', Inr ()) \<or> decrease_priority h x = (h', Inr ())"
  shows "length (heap h') = length (heap h) \<and> d h' = d h \<and>
         mset (map number (heap h')) = mset (map number (heap h)) \<and>
         dom (position_map h') = dom (position_map h) \<and>
         (\<forall>y. number y \<noteq> number x \<longrightarrow> (y \<in> set (heap h') \<longleftrightarrow> y \<in> set (heap h))) \<and>
         (\<forall>y \<in> set (heap h'). number y = number x \<longrightarrow> cost y = cost x)"
proof -
  have inv: "invar h"
    using invar_reachable [OF assms(1), of cs] assms(2) by simp
  then have mc: "map_consistent h" by (simp add: invar_def)
  have "invar h'"
    using assms(3) invar_increase_priority [OF inv, of x] invar_decrease_priority [OF inv, of x]
    by auto
  then have mc': "map_consistent h'" by (simp add: invar_def)
  obtain i where i: "i < length (heap h)" "number (heap h ! i) = number x" "d h' = d h"
    "mset (heap h') = mset ((heap h)[i := (heap h ! i)\<lparr>cost := cost x\<rparr>])"
    using assms(3) increase_priority_success [OF mc] decrease_priority_success [OF mc] by blast
  note fr = recost_frame [OF mc i(1,4)]
  have "set (map number (heap h')) = set (map number (heap h))"
    using fr(2) by (rule mset_eq_setD)
  then have "dom (position_map h') = dom (position_map h)"
    by (simp add: map_consistent_dom [OF mc] map_consistent_dom [OF mc'])
  then show ?thesis
    using fr i(2,3) by auto
qed

definition raise_ops :: "op list" where
  "raise_ops = [Insert \<lparr>number = 50, cost = 50\<rparr>, Insert \<lparr>number = 30, cost = 30\<rparr>]"

lemma raise_50:
  "increase_priority (run fresh4 raise_ops) \<lparr>number = 50, cost = 10\<rparr>
     = (run fresh4 (raise_ops @ [IncreasePriority \<lparr>number = 50, cost = 10\<rparr>]), Inr ())"
  "heap (run fresh4 raise_ops) = [\<lparr>number = 30, cost = 30\<rparr>, \<lparr>number = 50, cost = 50\<rparr>]"
  "heap (run fresh4 (raise_ops @ [IncreasePriority \<lparr>number = 50, cost = 10\<rparr>]))
     = [\<lparr>number = 50, cost = 10\<rparr>, \<lparr>number = 30, cost = 30\<rparr>]"
proof -
  have "snd (increase_priority (run fresh4 raise_ops) \<lparr>number = 50, cost = 10\<rparr>) = Inr ()"
    by code_simp
  moreover have "fst (increase_priority (run fresh4 raise_ops) \<lparr>number = 50, cost = 10\<rparr>)
      = run fresh4 (raise_ops @ [IncreasePriority \<lparr>number = 50, cost = 10\<rparr>])"
    by (simp add: raise_ops_def)
  ultimately show "increase_priority (run fresh4 raise_ops) \<lparr>number = 50, cost = 10\<rparr>
     = (run fresh4 (raise_ops @ [IncreasePriority \<lparr>number = 50, cost = 10\<rparr>]), Inr ())"
    by (simp add: prod_eq_iff)
  show "heap (run fresh4 raise_ops) = [\<lparr>number = 30, cost = 30\<rparr>, \<lparr>number = 50, cost = 50\<rparr>]"
    by code_simp
  show "heap (run fresh4 (raise_ops @ [IncreasePriority \<lparr>number = 50, cost = 10\<rparr>]))
     = [\<lparr>number = 50, cost = 10\<rparr>, \<lparr>number = 30, cost = 30\<rparr>]"
    by code_simp
qed

theorem priority_change_frame_witness:
  "init 4 = Inr fresh4 \<and>
   increase_priority (run fresh4 raise_ops) \<lparr>number = 50, cost = 10\<rparr>
     = (run fresh4 (raise_ops @ [IncreasePriority \<lparr>number = 50, cost = 10\<rparr>]), Inr ()) \<and>
   length (heap (run fresh4 (raise_ops @ [IncreasePriority \<lparr>number = 50, cost = 10\<rparr>])))
     = length (heap (run fresh4 raise_ops)) \<and>
   d (run fresh4 (raise_ops @ [IncreasePriority \<lparr>number = 50, cost = 10\<rparr>])) = d (run fresh4 raise_ops) \<and>
   dom (position_map (run fresh4 (raise_ops @ [IncreasePriority \<lparr>number = 50, cost = 10\<rparr>])))
     = dom (position_map (run fresh4 raise_ops)) \<and>
   \<lparr>number = 30, cost = 30\<rparr> \<in> set (heap (run fresh4 (raise_ops @ [IncreasePriority \<lparr>number = 50, cost = 10\<rparr>])))"
  using priority_change_frame [where cs = raise_ops and x = "\<lparr>number = 50, cost = 10\<rparr>"
      and h' = "run fresh4 (raise_ops @ [IncreasePriority \<lparr>number = 50, cost = 10\<rparr>])",
      OF init_4 refl disjI1 [OF raise_50(1)]]
    init_4 raise_50
  by simp

end
